theory Spec2Isabelle
  imports
    Complex_Main
    "HOL-Library.Char_ord"
    "HOL-Library.List_Lexorder"
    "HOL-Library.Product_Lexorder"
    "HOL-Library.Multiset"
begin

section \<open>Span records and the data frame\<close>

text \<open>
  \<^verbatim>\<open>analyze_trace_relationships.py\<close> reads a CSV file into a pandas data frame (with
  \<^verbatim>\<open>keep_default_na=False\<close>, so an absent parent is the empty string) and runs its
  analyses over the rows in file order. A row is a record of the columns the analyses read;
  the data frame is the list of its rows.
\<close>

record span_row =
  trace_id :: string
  span_id :: string
  parent_span_id :: string
  service_name :: string
  span_name :: string
  span_kind :: int

type_synonym dataframe = "span_row list"

datatype error = ZeroDivisionError | KeyError | RecursionError

section \<open>Exceptions\<close>

text \<open>
  An exception is the value \<open>Inl\<close> of a result. \<open>bind_err\<close> runs the next step unless
  the step before it raised, and \<open>map_err\<close> evaluates a function on the elements of a
  list from left to right, up to the first one that raises.
\<close>

definition bind_err :: "error + 'a \<Rightarrow> ('a \<Rightarrow> error + 'b) \<Rightarrow> error + 'b" where
  "bind_err r f = (case r of Inl e \<Rightarrow> Inl e | Inr v \<Rightarrow> f v)"

fun map_err :: "('a \<Rightarrow> error + 'b) \<Rightarrow> 'a list \<Rightarrow> error + 'b list" where
  "map_err f [] = Inr []"
| "map_err f (x # xs) =
     bind_err (f x) (\<lambda>y. bind_err (map_err f xs) (\<lambda>ys. Inr (y # ys)))"

section \<open>Python dictionaries\<close>

text \<open>
  A \<^verbatim>\<open>dict\<close> is an association list with one entry per key, in insertion order.
  \<open>dict_set\<close> is \<^verbatim>\<open>d[k] = v\<close> (an existing key keeps its position and takes the new
  value), \<open>dict_get\<close> is \<^verbatim>\<open>d.get(k, default)\<close>, \<open>dict_index\<close> is \<^verbatim>\<open>d[k]\<close> on a
  plain dict, and \<open>dict_append\<close> is \<^verbatim>\<open>d[k].append(x)\<close> on a \<^verbatim>\<open>defaultdict(list)\<close>.
\<close>

type_synonym ('k, 'v) dict = "('k \<times> 'v) list"

fun dict_set :: "('k, 'v) dict \<Rightarrow> 'k \<Rightarrow> 'v \<Rightarrow> ('k, 'v) dict" where
  "dict_set [] k v = [(k, v)]"
| "dict_set ((k', v') # d) k v =
     (if k' = k then (k, v) # d else (k', v') # dict_set d k v)"

definition dict_get :: "('k, 'v) dict \<Rightarrow> 'k \<Rightarrow> 'v \<Rightarrow> 'v" where
  "dict_get d k dflt = (case map_of d k of None \<Rightarrow> dflt | Some v \<Rightarrow> v)"

definition dict_index :: "('k, 'v) dict \<Rightarrow> 'k \<Rightarrow> error + 'v" where
  "dict_index d k = (case map_of d k of None \<Rightarrow> Inl KeyError | Some v \<Rightarrow> Inr v)"

fun dict_append :: "('k, 'v list) dict \<Rightarrow> 'k \<Rightarrow> 'v \<Rightarrow> ('k, 'v list) dict" where
  "dict_append [] k x = [(k, [x])]"
| "dict_append ((k', xs) # d) k x =
     (if k' = k then (k', xs @ [x]) # d else (k', xs) # dict_append d k x)"

section \<open>analyze\_trace\_depth: the index and the depth walk\<close>

record span_info =
  info_trace_id :: string
  info_service :: string
  info_span_name :: string
  info_span_kind :: int

text \<open>The truth value of a string: \<^verbatim>\<open>if s\<close> holds for every string but the empty one.\<close>

definition truthy :: "string \<Rightarrow> bool" where
  "truthy s = (s \<noteq> [])"

text \<open>One iteration of the loop over \<^verbatim>\<open>df.iterrows()\<close> (lines 180-192).\<close>

definition index_row ::
  "span_row \<Rightarrow> (string, string list) dict \<times> (string, span_info) dict
     \<Rightarrow> (string, string list) dict \<times> (string, span_info) dict" where
  "index_row row acc =
     (let sid = span_id row;
          parent_id = parent_span_id row;
          info = \<lparr>info_trace_id = trace_id row, info_service = service_name row,
                  info_span_name = span_name row, info_span_kind = span_kind row\<rparr>;
          span_to_info' = dict_set (snd acc) sid info;
          span_to_children' =
            (if truthy parent_id \<and> parent_id \<noteq> ''''
             then dict_append (fst acc) parent_id sid else fst acc)
      in (span_to_children', span_to_info'))"

definition build_index ::
  "dataframe \<Rightarrow> (string, string list) dict \<times> (string, span_info) dict" where
  "build_index df = fold index_row df ([], [])"

definition span_to_children :: "dataframe \<Rightarrow> (string, string list) dict" where
  "span_to_children df = fst (build_index df)"

definition span_to_info :: "dataframe \<Rightarrow> (string, span_info) dict" where
  "span_to_info df = snd (build_index df)"

text \<open>
  \<^verbatim>\<open>calculate_depth(span_id, visited)\<close> (lines 195-210). \<open>visited\<close> is the set of span
  ids on the path from the root of the walk; every child gets its own copy, extended by
  the current span. \<^verbatim>\<open>max\<close> is only reached with a non-empty list of children, where it
  is the maximum of the set of the children's depths; the generator evaluates the
  children in order.

  The function calls itself once per level of the tree, and Python bounds the nesting of
  calls (\<^verbatim>\<open>sys.getrecursionlimit()\<close>, 1000 frames unless a program raises it, which this
  one does not): a call beyond the bound raises \<^verbatim>\<open>RecursionError\<close>, and nothing in the
  program catches it. \<open>budget\<close> is the number of nested activations of
  \<^verbatim>\<open>calculate_depth\<close> that the interpreter still allows where \<^verbatim>\<open>analyze_trace_depth\<close>
  calls it. Every activation takes at least one frame (more with those of \<^verbatim>\<open>max\<close> and
  of the generator), so the budget is below 1000 with the default limit; its exact value
  depends on the interpreter and is a parameter here.
\<close>

definition children_of :: "(string, string list) dict \<Rightarrow> string \<Rightarrow> string list" where
  "children_of stc sid = dict_get stc sid []"

fun calculate_depth ::
  "nat \<Rightarrow> (string, string list) dict \<Rightarrow> string \<Rightarrow> string set \<Rightarrow> error + nat" where
  "calculate_depth 0 stc sid visited = Inl RecursionError"
| "calculate_depth (Suc budget) stc sid visited =
     (if sid \<in> visited then Inr 0
      else if children_of stc sid = [] then Inr 1
      else bind_err
             (map_err (\<lambda>child. calculate_depth budget stc child (insert sid visited))
                (children_of stc sid))
             (\<lambda>depths. Inr (1 + Max (set depths))))"

text \<open>
  The loop over the root rows (lines 218-231). \<open>trace_depths\<close> and \<open>trace_breadths\<close> are
  plain dicts; reading \<^verbatim>\<open>trace_breadths[trace_id]\<close> raises \<^verbatim>\<open>KeyError\<close> on a missing key.
  A call \<^verbatim>\<open>calculate_depth(span_id)\<close> starts with the empty visited set, and an exception
  of it ends the loop. The statistics printed after the loop (lines 233-257) are computed
  only when \<open>trace_depths\<close> is not empty; the function's result here is the pair of dicts.
\<close>

fun root_loop ::
  "nat \<Rightarrow> (string, string list) dict \<Rightarrow> span_row list
     \<Rightarrow> (string, nat) dict \<times> (string, nat) dict
     \<Rightarrow> error + ((string, nat) dict \<times> (string, nat) dict)" where
  "root_loop budget stc [] acc = Inr acc"
| "root_loop budget stc (root_row # rest) (trace_depths, trace_breadths) =
     (let tid = trace_id root_row;
          sid = span_id root_row
      in case calculate_depth budget stc sid {} of
           Inl e \<Rightarrow> Inl e
         | Inr depth \<Rightarrow>
            (let breadth = length (dict_get stc sid [])
             in if map_of trace_depths tid = None
                then root_loop budget stc rest
                       (dict_set trace_depths tid depth, dict_set trace_breadths tid breadth)
                else (case dict_index trace_depths tid of
                        Inl e \<Rightarrow> Inl e
                      | Inr d \<Rightarrow>
                         (case dict_index trace_breadths tid of
                            Inl e \<Rightarrow> Inl e
                          | Inr b \<Rightarrow>
                              root_loop budget stc rest
                                (dict_set trace_depths tid (max d depth),
                                 dict_set trace_breadths tid (max b breadth))))))"

definition analyze_trace_depth ::
  "nat \<Rightarrow> dataframe \<Rightarrow> error + ((string, nat) dict \<times> (string, nat) dict)" where
  "analyze_trace_depth budget df =
     root_loop budget (span_to_children df) (filter (\<lambda>r. parent_span_id r = '''') df) ([], [])"

section \<open>analyze\_span\_relationships\<close>

text \<open>
  \<^verbatim>\<open>df.duplicated(subset=['span_id'], keep=False)\<close> marks every row whose key occurs on
  more than one row; \<^verbatim>\<open>df[mask]\<close> keeps the marked rows in order.
\<close>

definition duplicated_keep_False :: "'a list \<Rightarrow> bool list" where
  "duplicated_keep_False keys = map (\<lambda>k. 1 < count_list keys k) keys"

definition boolean_mask :: "'a list \<Rightarrow> bool list \<Rightarrow> 'a list" where
  "boolean_mask rows marks = map fst (filter snd (zip rows marks))"

definition duplicate_span_ids :: "dataframe \<Rightarrow> dataframe" where
  "duplicate_span_ids df = boolean_mask df (duplicated_keep_False (map span_id df))"

text \<open>
  \<^verbatim>\<open>groupby(keys).size()\<close> and \<^verbatim>\<open>value_counts().sort_index()\<close>: one entry per distinct
  key, in ascending key order, with the number of rows that carry the key. Strings are
  compared character by character, as Python compares them.
\<close>

definition groupby_size :: "('k::linorder) list \<Rightarrow> ('k \<times> nat) list" where
  "groupby_size keys = map (\<lambda>k. (k, count_list keys k)) (sort (remdups keys))"

definition value_counts_sort_index :: "('k::linorder) list \<Rightarrow> ('k \<times> nat) list" where
  "value_counts_sort_index keys = groupby_size keys"

text \<open>
  The division \<^verbatim>\<open>a / b\<close> of two lengths; it raises on a zero divisor. The quotient is
  kept as a rational (the program prints its floating-point rounding).
\<close>

definition py_truediv :: "nat \<Rightarrow> nat \<Rightarrow> error + rat" where
  "py_truediv a b = (if b = 0 then Inl ZeroDivisionError else Inr (of_nat a / of_nat b))"

text \<open>
  \<^verbatim>\<open>analyze_span_relationships\<close> (lines 21-75): the percentages it prints are computed in
  the order of the source; the function returns the root rows and the child rows.
\<close>

definition analyze_span_relationships :: "dataframe \<Rightarrow> error + (dataframe \<times> dataframe)" where
  "analyze_span_relationships df =
     (let total_spans = length df;
          root_spans = filter (\<lambda>r. parent_span_id r = '''') df;
          child_spans = filter (\<lambda>r. parent_span_id r \<noteq> '''') df
      in bind_err (py_truediv (length root_spans) total_spans) (\<lambda>root_pct.
         bind_err (py_truediv (length child_spans) total_spans) (\<lambda>child_pct.
         bind_err (map_err (\<lambda>kc. py_truediv (snd kc) (length root_spans))
                     (value_counts_sort_index (map span_kind root_spans))) (\<lambda>root_kind_pct.
         bind_err (map_err (\<lambda>kc. py_truediv (snd kc) (length child_spans))
                     (value_counts_sort_index (map span_kind child_spans))) (\<lambda>child_kind_pct.
         Inr (root_spans, child_spans))))))"

section \<open>analyze\_orphaned\_spans\<close>

text \<open>Lines 84-114: the result is \<^verbatim>\<open>None\<close> when no orphan is found.\<close>

definition analyze_orphaned_spans :: "dataframe \<Rightarrow> dataframe option" where
  "analyze_orphaned_spans df =
     (let all_span_ids = set (remdups (map span_id df));
          child_spans = filter (\<lambda>r. parent_span_id r \<noteq> '''') df;
          orphaned_spans =
            fold (\<lambda>row acc. if parent_span_id row \<notin> all_span_ids then acc @ [row] else acc)
              child_spans []
      in if 0 < length orphaned_spans then Some orphaned_spans else None)"

section \<open>analyze\_trace\_structure\<close>

text \<open>
  Lines 153-163: the number of root rows of every trace, by \<^verbatim>\<open>groupby('trace_id')\<close>, and
  the traces with more than one.
\<close>

definition root_spans_per_trace :: "dataframe \<Rightarrow> (string \<times> nat) list" where
  "root_spans_per_trace df =
     map (\<lambda>t. (t, length (filter (\<lambda>r. parent_span_id r = '''')
                              (filter (\<lambda>r. trace_id r = t) df))))
       (sort (remdups (map trace_id df)))"

definition multi_root_traces :: "dataframe \<Rightarrow> (string \<times> nat) list" where
  "multi_root_traces df = filter (\<lambda>tn. 1 < snd tn) (root_spans_per_trace df)"

section \<open>analyze\_cross\_service\_calls\<close>

record cross_call =
  parent_service :: string
  child_service :: string
  call_trace_id :: string
  call_parent_span_id :: string
  child_span_id :: string

text \<open>\<^verbatim>\<open>dict(zip(keys, values))\<close>: the pairs are stored one after the other.\<close>

definition dict_of_pairs :: "('k \<times> 'v) list \<Rightarrow> ('k, 'v) dict" where
  "dict_of_pairs kvs = fold (\<lambda>kv d. dict_set d (fst kv) (snd kv)) kvs []"

definition span_to_service :: "dataframe \<Rightarrow> (string, string) dict" where
  "span_to_service df = dict_of_pairs (zip (map span_id df) (map service_name df))"

text \<open>One iteration of the loop over the child rows (lines 273-286).\<close>

definition cross_step ::
  "(string, string) dict \<Rightarrow> span_row \<Rightarrow> cross_call list \<Rightarrow> cross_call list" where
  "cross_step sts row calls =
     (let parent_id = parent_span_id row;
          child_svc = service_name row
      in case map_of sts parent_id of
           None \<Rightarrow> calls
         | Some parent_svc \<Rightarrow>
             if parent_svc \<noteq> child_svc
             then calls @ [\<lparr>parent_service = parent_svc, child_service = child_svc,
                            call_trace_id = trace_id row, call_parent_span_id = parent_id,
                            child_span_id = span_id row\<rparr>]
             else calls)"

definition cross_service_calls :: "dataframe \<Rightarrow> cross_call list" where
  "cross_service_calls df =
     fold (cross_step (span_to_service df)) (filter (\<lambda>r. parent_span_id r \<noteq> '''') df) []"

type_synonym edge_count = "(string \<times> string) \<times> nat"

text \<open>
  \<^verbatim>\<open>cross_df.groupby(['parent_service', 'child_service']).size()\<close>: the edge counts behind
  the call matrix and the pattern list.
\<close>

definition call_counts :: "dataframe \<Rightarrow> edge_count list" where
  "call_counts df =
     groupby_size (map (\<lambda>c. (parent_service c, child_service c)) (cross_service_calls df))"


definition pattern_counts ::
  "(edge_count list \<Rightarrow> edge_count list) \<Rightarrow> dataframe \<Rightarrow> edge_count list" where
  "pattern_counts sort_values df = sort_values (call_counts df)"

definition analyze_cross_service_calls ::
  "(edge_count list \<Rightarrow> edge_count list) \<Rightarrow> dataframe
     \<Rightarrow> (edge_count list \<times> edge_count list) option" where
  "analyze_cross_service_calls sort_values df =
     (if cross_service_calls df \<noteq> []
      then Some (call_counts df, take 10 (pattern_counts sort_values df))
      else None)"

section \<open>The analyses in sequence\<close>

record analysis_report =
  rep_root_spans :: dataframe
  rep_child_spans :: dataframe
  rep_orphaned_spans :: "dataframe option"
  rep_multi_root_traces :: "(string \<times> nat) list"
  rep_trace_depths :: "(string, nat) dict"
  rep_trace_breadths :: "(string, nat) dict"
  rep_cross_service :: "(edge_count list \<times> edge_count list) option"

text \<open>
  \<^verbatim>\<open>main\<close> (lines 456-461) after loading the file: an exception of one analysis ends
  the run, and the analyses after it do not report. The printing of example trees
  (\<^verbatim>\<open>visualize_example_traces\<close>) and of the summary is presentation and is left out.
\<close>

definition run_analyses ::
  "nat \<Rightarrow> (edge_count list \<Rightarrow> edge_count list) \<Rightarrow> dataframe \<Rightarrow> error + analysis_report" where
  "run_analyses budget sort_values df =
     bind_err (analyze_span_relationships df) (\<lambda>rc.
       let orphaned = analyze_orphaned_spans df;
           multi = multi_root_traces df
       in bind_err (analyze_trace_depth budget df) (\<lambda>metrics.
            Inr \<lparr>rep_root_spans = fst rc, rep_child_spans = snd rc,
                 rep_orphaned_spans = orphaned, rep_multi_root_traces = multi,
                 rep_trace_depths = fst metrics, rep_trace_breadths = snd metrics,
                 rep_cross_service = analyze_cross_service_calls sort_values df\<rparr>))"

section \<open>Notions used in the statements\<close>

text \<open>The span ids that occur as a child in a dictionary of children.\<close>

definition dict_nodes :: "(string, string list) dict \<Rightarrow> string set" where
  "dict_nodes stc = (\<Union>kv \<in> set stc. set (snd kv))"

text \<open>The orphan report as a list of rows: \<^verbatim>\<open>None\<close> is the empty report.\<close>

definition orphan_rows :: "dataframe \<Rightarrow> dataframe" where
  "orphan_rows df = (case analyze_orphaned_spans df of None \<Rightarrow> [] | Some rows \<Rightarrow> rows)"

text \<open>The entry of \<open>span_to_info\<close> that \<open>index_row\<close> stores for a row.\<close>

definition info_of :: "span_row \<Rightarrow> span_info" where
  "info_of row = \<lparr>info_trace_id = trace_id row, info_service = service_name row,
                  info_span_name = span_name row, info_span_kind = span_kind row\<rparr>"


text \<open>
  Two sorts that meet the promise of \<^verbatim>\<open>sort_values(ascending=False)\<close>: one keeps equal
  counts in the order it finds them, the other one reverses them.
\<close>

definition stable_descending :: "edge_count list \<Rightarrow> edge_count list" where
  "stable_descending xs = rev (sort_key snd (rev xs))"


text \<open>
  The value a trace has in \<open>trace_depths\<close> (or \<open>trace_breadths\<close>) after the loop has seen
  the given per-root values of that trace, starting from the entry \<open>start\<close>.
\<close>

fun acc_max :: "nat option \<Rightarrow> nat list \<Rightarrow> nat option" where
  "acc_max start [] = start"
| "acc_max None (x # xs) = acc_max (Some x) xs"
| "acc_max (Some d) (x # xs) = acc_max (Some (max d x)) xs"

text \<open>The root rows of a trace, in input order.\<close>

definition roots_of :: "dataframe \<Rightarrow> string \<Rightarrow> span_row list" where
  "roots_of df t = filter (\<lambda>r. trace_id r = t) (filter (\<lambda>r. parent_span_id r = '''') df)"

text \<open>
  The parent relation of a data frame: a row with a non-empty parent id relates its span
  id to that parent id. \<open>edge_rel\<close> is the same relation read off the dictionary of
  children.
\<close>

definition parent_rel :: "dataframe \<Rightarrow> (string \<times> string) set" where
  "parent_rel df = {(span_id r, parent_span_id r) | r. r \<in> set df \<and> parent_span_id r \<noteq> ''''}"

definition edge_rel :: "(string, string list) dict \<Rightarrow> (string \<times> string) set" where
  "edge_rel stc = {(c, p). c \<in> set (children_of stc p)}"

text \<open>
  The recursive definition of the specification, as a relation between a span and its
  depth: 1 for a span without children, otherwise 1 more than the maximum of the depths of
  its children.
\<close>

inductive depth_rel :: "(string, string list) dict \<Rightarrow> string \<Rightarrow> nat \<Rightarrow> bool"
  for stc :: "(string, string list) dict" where
  leaf: "children_of stc sid = [] \<Longrightarrow> depth_rel stc sid 1"
| node: "children_of stc sid \<noteq> [] \<Longrightarrow> list_all2 (depth_rel stc) (children_of stc sid) ds
          \<Longrightarrow> depth_rel stc sid (1 + Max (set ds))"

section \<open>Example inputs\<close>

text \<open>A row with the given trace id, span id, parent id and service name.\<close>

definition mk_span :: "string \<Rightarrow> string \<Rightarrow> string \<Rightarrow> string \<Rightarrow> span_row" where
  "mk_span tid sid parent svc =
     \<lparr>trace_id = tid, span_id = sid, parent_span_id = parent, service_name = svc,
      span_name = ''op'', span_kind = 2\<rparr>"

text \<open>Root A (web), its child B (cart) and B's child C (payment), in one trace.\<close>

definition chain_df :: dataframe where
  "chain_df =
     [mk_span ''T1'' ''A'' '''' ''web'',
      mk_span ''T1'' ''B'' ''A'' ''cart'',
      mk_span ''T1'' ''C'' ''B'' ''payment'']"

text \<open>The chain, and a row D of another trace whose parent id no row carries.\<close>

definition orphan_df :: dataframe where
  "orphan_df = chain_df @ [mk_span ''T3'' ''D'' ''zzz'' ''web'']"

text \<open>Two rows of different traces with the one span id \<open>s1\<close>.\<close>

definition dup_df :: dataframe where
  "dup_df = [mk_span ''T1'' ''s1'' '''' ''web'', mk_span ''T2'' ''s1'' '''' ''cart'']"


text \<open>
  A root A with child B, B's child C, and a second row for B that names C as its parent:
  the children of C lead back to B.
\<close>

definition cyc_df :: dataframe where
  "cyc_df =
     [mk_span ''T1'' ''A'' '''' ''web'',
      mk_span ''T1'' ''B'' ''A'' ''cart'',
      mk_span ''T1'' ''C'' ''B'' ''payment'',
      mk_span ''T1'' ''B'' ''C'' ''cart'']"

text \<open>Two roots without children in trace T2, and a trace T9 whose only row has a parent.\<close>

definition multi_root_df :: dataframe where
  "multi_root_df =
     [mk_span ''T2'' ''R1'' '''' ''web'',
      mk_span ''T2'' ''R2'' '''' ''web'',
      mk_span ''T9'' ''X'' ''zzz'' ''cart'']"

text \<open>A root A in trace T1 and a row B of trace T2 that names A as its parent.\<close>

definition cross_trace_df :: dataframe where
  "cross_trace_df = [mk_span ''T1'' ''A'' '''' ''web'', mk_span ''T2'' ''B'' ''A'' ''cart'']"

section \<open>Facts about the dictionaries\<close>

lemma map_of_dict_set: "map_of (dict_set d k v) = (map_of d)(k \<mapsto> v)"
  by (induction d) (auto simp: fun_eq_iff)

lemma map_of_dict_append:
  "map_of (dict_append d k x) =
     (map_of d)(k \<mapsto> (case map_of d k of None \<Rightarrow> [x] | Some xs \<Rightarrow> xs @ [x]))"
  by (induction d) (auto simp: fun_eq_iff)

lemma dict_get_dict_append:
  "dict_get (dict_append d k x) k' [] =
     (if k' = k then dict_get d k [] @ [x] else dict_get d k' [])"
  by (simp add: dict_get_def map_of_dict_append split: option.splits)

section \<open>Duplicate span ids\<close>

lemma boolean_mask_map: "boolean_mask rows (map P rows) = filter P rows"
  by (induction rows) (simp_all add: boolean_mask_def)

lemma duplicate_span_ids_filter:
  "duplicate_span_ids df = filter (\<lambda>r. 1 < count_list (map span_id df) (span_id r)) df"
  using boolean_mask_map
    [where rows = df and P = "\<lambda>r. 1 < count_list (map span_id df) (span_id r)"]
  by (simp add: duplicate_span_ids_def duplicated_keep_False_def comp_def)

lemma distinct_iff_count_le_1: "distinct xs \<longleftrightarrow> (\<forall>x\<in>set xs. count_list xs x \<le> 1)"
proof (induction xs)
  case Nil
  then show ?case by simp
next
  case (Cons a xs)
  show ?case
  proof (cases "a \<in> set xs")
    case True
    then have "count_list xs a \<noteq> 0" by (simp add: count_list_0_iff)
    with True show ?thesis by auto
  next
    case False
    then have "count_list xs a = 0" by (simp add: count_list_0_iff)
    with False Cons show ?thesis by auto
  qed
qed

text \<open>
  C8. The duplicate finding (line 38) is empty exactly when no two rows share a span id;
  it holds, in input order, every row whose span id is carried by more than one row (the
  first occurrence as well as the later ones).
\<close>

theorem duplicate_finding_exact:
  "(duplicate_span_ids df = [] \<longleftrightarrow> distinct (map span_id df))
   \<and> duplicate_span_ids df
       = filter (\<lambda>r. 1 < count_list (map span_id df) (span_id r)) df"
proof -
  have "(filter (\<lambda>r. 1 < count_list (map span_id df) (span_id r)) df = [])
      \<longleftrightarrow> (\<forall>x\<in>set (map span_id df). count_list (map span_id df) x \<le> 1)"
    by (auto simp: filter_empty_conv not_less)
  then show ?thesis
    by (simp only: duplicate_span_ids_filter distinct_iff_count_le_1 [symmetric] simp_thms)
qed

section \<open>Orphaned spans\<close>

lemma fold_append_filter:
  "fold (\<lambda>row acc. if P row then acc @ [row] else acc) rows acc0 = acc0 @ filter P rows"
  by (induction rows arbitrary: acc0) simp_all

lemma orphan_rows_filter:
  "orphan_rows df
     = filter (\<lambda>r. parent_span_id r \<noteq> '''' \<and> parent_span_id r \<notin> span_id ` set df) df"
  by (simp add: orphan_rows_def analyze_orphaned_spans_def Let_def fold_append_filter
      conj_commute)

text \<open>
  C5. The orphan report holds exactly the rows whose parent id is not empty and is the
  span id of no row of the whole data frame, whatever the traces; a row outside the report
  has an empty parent or a parent that is some row's span id. A lone row with a parent
  that no row carries gives the one finding of its span id and that parent.
\<close>

theorem orphan_report_exact:
  "orphan_rows df
     = filter (\<lambda>r. parent_span_id r \<noteq> '''' \<and> parent_span_id r \<notin> span_id ` set df) df
   \<and> (\<forall>r\<in>set df. r \<notin> set (orphan_rows df)
         \<longrightarrow> parent_span_id r = '''' \<or> parent_span_id r \<in> span_id ` set df)
   \<and> (parent_span_id d \<noteq> '''' \<and> parent_span_id d \<noteq> span_id d
         \<longrightarrow> analyze_orphaned_spans [d] = Some [d]
           \<and> map (\<lambda>r. (span_id r, parent_span_id r)) (orphan_rows [d])
               = [(span_id d, parent_span_id d)])"
proof (intro conjI ballI impI)
  show "orphan_rows df
     = filter (\<lambda>r. parent_span_id r \<noteq> '''' \<and> parent_span_id r \<notin> span_id ` set df) df"
    by (rule orphan_rows_filter)
next
  fix r
  assume "r \<in> set df" and "r \<notin> set (orphan_rows df)"
  then show "parent_span_id r = '''' \<or> parent_span_id r \<in> span_id ` set df"
    by (auto simp: orphan_rows_filter)
next
  assume d: "parent_span_id d \<noteq> '''' \<and> parent_span_id d \<noteq> span_id d"
  then show "analyze_orphaned_spans [d] = Some [d]"
    by (simp add: analyze_orphaned_spans_def)
  from d show "map (\<lambda>r. (span_id r, parent_span_id r)) (orphan_rows [d])
      = [(span_id d, parent_span_id d)]"
    by (simp add: orphan_rows_filter)
qed

theorem orphan_report_exact_witness:
  "orphan_rows orphan_df = [mk_span ''T3'' ''D'' ''zzz'' ''web'']
   \<and> mk_span ''T1'' ''B'' ''A'' ''cart'' \<in> set orphan_df
   \<and> mk_span ''T1'' ''B'' ''A'' ''cart'' \<notin> set (orphan_rows orphan_df)
   \<and> ''A'' \<in> span_id ` set orphan_df
   \<and> analyze_orphaned_spans [mk_span ''T3'' ''D'' ''zzz'' ''web'']
       = Some [mk_span ''T3'' ''D'' ''zzz'' ''web'']
   \<and> map (\<lambda>r. (span_id r, parent_span_id r)) (orphan_rows [mk_span ''T3'' ''D'' ''zzz'' ''web''])
       = [(''D'', ''zzz'')]"
  using orphan_report_exact [of orphan_df "mk_span ''T3'' ''D'' ''zzz'' ''web''"]
  by (simp add: orphan_df_def chain_df_def mk_span_def)

section \<open>The indexes of span ids\<close>

lemma map_of_fold_dict_set:
  "map_of (fold (\<lambda>kv d. dict_set d (fst kv) (snd kv)) kvs d) k
     = (case map_of (rev kvs) k of None \<Rightarrow> map_of d k | Some v \<Rightarrow> Some v)"
proof (induction kvs arbitrary: d)
  case Nil
  then show ?case by simp
next
  case (Cons kv kvs)
  show ?case
    by (cases kv) (auto simp: Cons.IH map_of_dict_set map_add_def split: option.splits)
qed

lemma map_of_rev_zip_last:
  "map_of (rev (zip (map f xs) (map g xs))) k
     = (if filter (\<lambda>x. f x = k) xs = [] then None
        else Some (g (last (filter (\<lambda>x. f x = k) xs))))"
  by (induction xs rule: rev_induct) auto

lemma span_to_service_last:
  "map_of (span_to_service df) k
     = (if filter (\<lambda>r. span_id r = k) df = [] then None
        else Some (service_name (last (filter (\<lambda>r. span_id r = k) df))))"
  by (simp add: span_to_service_def dict_of_pairs_def map_of_fold_dict_set map_of_rev_zip_last)

lemma snd_fold_index_row:
  "snd (fold index_row df acc)
     = fold (\<lambda>kv d. dict_set d (fst kv) (snd kv)) (zip (map span_id df) (map info_of df)) (snd acc)"
  by (induction df arbitrary: acc) (simp_all add: index_row_def Let_def info_of_def)

lemma fst_fold_index_row:
  "fst (fold index_row df acc)
     = fold (\<lambda>row d. if parent_span_id row \<noteq> '''' then dict_append d (parent_span_id row) (span_id row) else d)
         df (fst acc)"
  by (induction df arbitrary: acc) (simp_all add: index_row_def Let_def truthy_def)

lemma span_to_info_last:
  "map_of (span_to_info df) k
     = (if filter (\<lambda>r. span_id r = k) df = [] then None
        else Some (info_of (last (filter (\<lambda>r. span_id r = k) df))))"
  by (simp add: span_to_info_def build_index_def snd_fold_index_row map_of_fold_dict_set
      map_of_rev_zip_last)

lemma dict_get_fold_append:
  "dict_get (fold (\<lambda>row d. if parent_span_id row \<noteq> '''' then dict_append d (parent_span_id row) (span_id row) else d) df d0) p []
     = dict_get d0 p [] @ (if p = '''' then [] else map span_id (filter (\<lambda>r. parent_span_id r = p) df))"
  by (induction df arbitrary: d0) (auto simp: dict_get_dict_append)

lemma children_of_span_to_children:
  "children_of (span_to_children df) p
     = (if p = '''' then [] else map span_id (filter (\<lambda>r. parent_span_id r = p) df))"
  by (simp add: children_of_def span_to_children_def build_index_def fst_fold_index_row
      dict_get_fold_append) (simp add: dict_get_def)

text \<open>
  C3, as the code has it. Both indexes are filled by plain dictionary assignment
  (\<^verbatim>\<open>span_to_info[span_id] = ...\<close>, \<^verbatim>\<open>dict(zip(...))\<close>), so a later row replaces an
  earlier one: a lookup of a span id gives the last row that carries it. Every row
  whose span id is shared, the first one too, is in the duplicate finding.
\<close>

theorem last_record_wins:
  "r \<in> set df \<Longrightarrow>
     map_of (span_to_service df) (span_id r)
       = Some (service_name (last (filter (\<lambda>q. span_id q = span_id r) df)))
     \<and> map_of (span_to_info df) (span_id r)
       = Some (info_of (last (filter (\<lambda>q. span_id q = span_id r) df)))
     \<and> (1 < count_list (map span_id df) (span_id r) \<longrightarrow> r \<in> set (duplicate_span_ids df))"
proof -
  assume r: "r \<in> set df"
  then have "filter (\<lambda>q. span_id q = span_id r) df \<noteq> []"
    by (auto simp: filter_empty_conv)
  with r show ?thesis
    by (simp add: span_to_service_last span_to_info_last duplicate_span_ids_filter)
qed

theorem last_record_wins_witness:
  "mk_span ''T1'' ''s1'' '''' ''web'' \<in> set dup_df
   \<and> map_of (span_to_service dup_df) ''s1'' = Some ''cart''
   \<and> map_of (span_to_info dup_df) ''s1'' = Some (info_of (mk_span ''T2'' ''s1'' '''' ''cart''))
   \<and> 1 < count_list (map span_id dup_df) ''s1''
   \<and> mk_span ''T1'' ''s1'' '''' ''web'' \<in> set (duplicate_span_ids dup_df)"
  using last_record_wins [of "mk_span ''T1'' ''s1'' '''' ''web''" dup_df]
  by (simp add: dup_df_def mk_span_def)

text \<open>
  The claim as the specification states it (the first row wins) fails on two rows that
  share the span id \<open>s1\<close>: the lookup gives the service and the trace of the second row.
\<close>

theorem first_record_wins_counterexample:
  "hd dup_df = mk_span ''T1'' ''s1'' '''' ''web''
   \<and> map_of (span_to_service dup_df) ''s1'' = Some ''cart''
   \<and> map_of (span_to_service dup_df) (span_id (hd dup_df)) \<noteq> Some (service_name (hd dup_df))
   \<and> map_of (span_to_info dup_df) (span_id (hd dup_df)) \<noteq> Some (info_of (hd dup_df))"
  by (simp add: span_to_service_last span_to_info_last dup_df_def mk_span_def info_of_def)

section \<open>Cross-service edges\<close>

lemma map_of_groupby_size:
  "map_of (groupby_size keys) k = (if k \<in> set keys then Some (count_list keys k) else None)"
proof -
  have "map_of (map (\<lambda>k. (k, count_list keys k)) ks) k
      = (if k \<in> set ks then Some (count_list keys k) else None)" for ks
    by (induction ks) auto
  then show ?thesis by (simp add: groupby_size_def)
qed

lemma distinct_groupby_size: "distinct (map fst (groupby_size keys))"
  by (simp add: groupby_size_def comp_def)

lemma sorted_groupby_size: "sorted (map fst (groupby_size keys))"
  by (simp add: groupby_size_def comp_def)

lemma count_fold_cross_step:
  "count_list (map (\<lambda>c. (parent_service c, child_service c)) (fold (cross_step sts) rows acc)) (p, c)
     = count_list (map (\<lambda>c. (parent_service c, child_service c)) acc) (p, c)
       + length (filter (\<lambda>r. map_of sts (parent_span_id r) = Some p \<and> service_name r = c \<and> p \<noteq> c) rows)"
  by (induction rows arbitrary: acc) (auto simp: cross_step_def Let_def split: option.splits)

lemma count_cross_service_calls:
  "count_list (map (\<lambda>c. (parent_service c, child_service c)) (cross_service_calls df)) (p, c)
     = (if p = c then 0
        else length (filter (\<lambda>r. parent_span_id r \<noteq> ''''
               \<and> map_of (span_to_service df) (parent_span_id r) = Some p
               \<and> service_name r = c) df))"
  by (auto simp: cross_service_calls_def count_fold_cross_step conj_commute conj_left_commute
      intro!: arg_cong [where f = length] filter_cong)

lemma map_of_call_counts:
  "map_of (call_counts df) (p, c)
     = (let n = length (filter (\<lambda>r. parent_span_id r \<noteq> ''''
                 \<and> map_of (span_to_service df) (parent_span_id r) = Some p
                 \<and> service_name r = c) df)
        in if p \<noteq> c \<and> 0 < n then Some n else None)"
proof -
  let ?keys = "map (\<lambda>c. (parent_service c, child_service c)) (cross_service_calls df)"
  have "(p, c) \<in> set ?keys \<longleftrightarrow> count_list ?keys (p, c) \<noteq> 0"
    by (simp add: count_list_0_iff)
  then show ?thesis
    unfolding call_counts_def map_of_groupby_size Let_def
    by (simp add: count_cross_service_calls del: set_map)
qed

lemma call_counts_chain:
  "call_counts chain_df = [((''cart'', ''payment''), 1), ((''web'', ''cart''), 1)]"
  by code_simp

text \<open>
  C6. The edge counts hold, for every pair of different services, the number of rows with
  a non-empty parent id that the span-id index resolves to the parent service and whose own
  service is the child service; a pair with no such row, and every pair of one service with
  itself, has no entry. A parent id resolves exactly when some row carries it as its span
  id, so an orphan adds to no edge. The chain of web, cart and payment has the two edges
  web to cart and cart to payment, once each.
\<close>

theorem cross_service_edges_exact:
  "map_of (call_counts df) (p, c)
     = (let n = length (filter (\<lambda>r. parent_span_id r \<noteq> ''''
                 \<and> map_of (span_to_service df) (parent_span_id r) = Some p
                 \<and> service_name r = c) df)
        in if p \<noteq> c \<and> 0 < n then Some n else None)
   \<and> distinct (map fst (call_counts df))
   \<and> (map_of (span_to_service df) k = None \<longleftrightarrow> k \<notin> span_id ` set df)
   \<and> (map_of (span_to_service df) k = Some p
        \<longrightarrow> (\<exists>q\<in>set df. span_id q = k \<and> service_name q = p))
   \<and> call_counts chain_df = [((''cart'', ''payment''), 1), ((''web'', ''cart''), 1)]"
proof (intro conjI impI)
  show "map_of (span_to_service df) k = None \<longleftrightarrow> k \<notin> span_id ` set df"
    by (auto simp: span_to_service_last filter_empty_conv)
next
  assume "map_of (span_to_service df) k = Some p"
  then have ne: "filter (\<lambda>r. span_id r = k) df \<noteq> []"
    and p: "p = service_name (last (filter (\<lambda>r. span_id r = k) df))"
    by (auto simp: span_to_service_last split: if_splits)
  from ne have "last (filter (\<lambda>r. span_id r = k) df) \<in> set (filter (\<lambda>r. span_id r = k) df)"
    by (rule last_in_set)
  with p show "\<exists>q\<in>set df. span_id q = k \<and> service_name q = p"
    by auto
next
  show "distinct (map fst (call_counts df))"
    by (simp only: call_counts_def distinct_groupby_size)
qed (rule map_of_call_counts, rule call_counts_chain)

theorem cross_service_edges_exact_witness:
  "map_of (call_counts chain_df) (''web'', ''cart'') = Some 1
   \<and> map_of (call_counts chain_df) (''cart'', ''payment'') = Some 1
   \<and> map_of (span_to_service chain_df) ''A'' = Some ''web''
   \<and> mk_span ''T1'' ''A'' '''' ''web'' \<in> set chain_df"
  using cross_service_edges_exact [of chain_df "''web''" "''cart''" "''A''"]
    cross_service_edges_exact [of chain_df "''cart''" "''payment''" "''B''"]
  by (simp add: chain_df_def mk_span_def span_to_service_last)

section \<open>The order of the reported edges\<close>




lemma pattern_counts_stable_chain:
  "pattern_counts stable_descending chain_df
     = [((''cart'', ''payment''), 1), ((''web'', ''cart''), 1)]"
  by (simp add: pattern_counts_def call_counts_chain stable_descending_def)









section \<open>The depth walk\<close>

lemma children_of_nodes: "set (children_of stc sid) \<subseteq> dict_nodes stc"
proof (cases "map_of stc sid")
  case None
  then show ?thesis by (simp add: children_of_def dict_get_def)
next
  case (Some cs)
  then have "(sid, cs) \<in> set stc" by (rule map_of_SomeD)
  then have "set cs \<subseteq> dict_nodes stc" by (force simp: dict_nodes_def)
  with Some show ?thesis by (simp add: children_of_def dict_get_def)
qed

lemma finite_dict_nodes: "finite (dict_nodes stc)"
  by (simp add: dict_nodes_def)

lemma map_err_Cons_Inr:
  "map_err f (x # xs) = Inr ys
     \<longleftrightarrow> (\<exists>y zs. f x = Inr y \<and> map_err f xs = Inr zs \<and> ys = y # zs)"
proof (cases "f x")
  case (Inl e)
  then show ?thesis by (simp add: bind_err_def)
next
  case (Inr y)
  then show ?thesis
    by (cases "map_err f xs") (auto simp add: bind_err_def)
qed

lemma map_err_Inr_iff:
  "map_err f xs = Inr ys \<longleftrightarrow> list_all2 (\<lambda>x y. f x = Inr y) xs ys"
proof (induction xs arbitrary: ys)
  case Nil
  show ?case by (cases ys) simp_all
next
  case (Cons x xs)
  show ?case
    unfolding map_err_Cons_Inr list_all2_Cons1 Cons.IH by blast
qed

lemma map_err_Inl:
  "map_err f xs = Inl e \<Longrightarrow> \<exists>x\<in>set xs. f x = Inl e"
proof (induction xs)
  case Nil
  then show ?case by simp
next
  case (Cons x xs)
  then show ?case
    by (cases "f x"; cases "map_err f xs") (auto simp: bind_err_def)
qed

lemma map_err_returns:
  "(\<And>x. x \<in> set xs \<Longrightarrow> \<exists>y. f x = Inr y) \<Longrightarrow> \<exists>ys. map_err f xs = Inr ys"
proof (induction xs)
  case Nil
  then show ?case by simp
next
  case (Cons x xs)
  from Cons.prems obtain y where "f x = Inr y" by auto
  moreover from Cons obtain ys where "map_err f xs = Inr ys" by auto
  ultimately show ?case by (simp add: bind_err_def)
qed

lemma calculate_depth_visited:
  "sid \<in> visited \<Longrightarrow> calculate_depth (Suc budget) stc sid visited = Inr 0"
  by simp

lemma calculate_depth_leaf:
  "sid \<notin> visited \<Longrightarrow> children_of stc sid = []
     \<Longrightarrow> calculate_depth (Suc budget) stc sid visited = Inr 1"
  by simp

lemma calculate_depth_node:
  assumes "sid \<notin> visited" and "children_of stc sid \<noteq> []"
  shows "calculate_depth (Suc budget) stc sid visited = Inr d
       \<longleftrightarrow> (\<exists>ds. list_all2 (\<lambda>child dc. calculate_depth budget stc child (insert sid visited) = Inr dc)
                   (children_of stc sid) ds
                 \<and> d = 1 + Max (set ds))"
proof -
  let ?m = "map_err (\<lambda>child. calculate_depth budget stc child (insert sid visited))
              (children_of stc sid)"
  have "calculate_depth (Suc budget) stc sid visited
      = bind_err ?m (\<lambda>depths. Inr (1 + Max (set depths)))"
    using assms by simp
  moreover have "bind_err ?m (\<lambda>depths. Inr (1 + Max (set depths))) = Inr d
      \<longleftrightarrow> (\<exists>ds. ?m = Inr ds \<and> d = 1 + Max (set ds))"
    by (cases ?m) (auto simp: bind_err_def)
  ultimately show ?thesis
    by (simp only: map_err_Inr_iff)
qed

lemma calculate_depth_error:
  "calculate_depth budget stc sid visited = Inl e \<Longrightarrow> e = RecursionError"
proof (induction budget arbitrary: sid visited)
  case 0
  then show ?case by simp
next
  case (Suc budget)
  show ?case
  proof (cases "sid \<in> visited \<or> children_of stc sid = []")
    case True
    with Suc.prems show ?thesis by (auto split: if_splits)
  next
    case False
    with Suc.prems have
      "map_err (\<lambda>child. calculate_depth budget stc child (insert sid visited))
         (children_of stc sid) = Inl e"
      by (auto simp: bind_err_def split: sum.splits)
    then obtain child where
      "calculate_depth budget stc child (insert sid visited) = Inl e"
      by (auto dest: map_err_Inl)
    then show ?thesis by (rule Suc.IH)
  qed
qed

lemma list_all2_set2: "list_all2 P xs ys \<Longrightarrow> y \<in> set ys \<Longrightarrow> \<exists>x\<in>set xs. P x y"
  by (induction rule: list_all2_induct) auto

lemma calculate_depth_nodeD:
  assumes "calculate_depth (Suc budget) stc sid visited = Inr d"
    and "sid \<notin> visited" and "children_of stc sid \<noteq> []"
  shows "\<exists>ds. list_all2 (\<lambda>child dc. calculate_depth budget stc child (insert sid visited) = Inr dc)
                (children_of stc sid) ds
              \<and> d = 1 + Max (set ds)"
  using assms(1) unfolding calculate_depth_node [OF assms(2,3)] .

lemma calculate_depth_enough:
  "card (insert sid (dict_nodes stc) - visited) < budget \<Longrightarrow>
     \<exists>d. calculate_depth budget stc sid visited = Inr d
       \<and> d \<le> card (insert sid (dict_nodes stc) - visited)
       \<and> (sid \<notin> visited \<longrightarrow> 1 \<le> d)"
proof (induction budget arbitrary: sid visited)
  case 0
  then show ?case by simp
next
  case (Suc budget)
  show ?case
  proof (cases "sid \<in> visited")
    case True
    then show ?thesis by simp
  next
    case False
    have split: "insert sid (dict_nodes stc) - visited
        = insert sid (dict_nodes stc - insert sid visited)"
      using False by auto
    have card_eq: "card (insert sid (dict_nodes stc) - visited)
        = Suc (card (dict_nodes stc - insert sid visited))"
      unfolding split by (simp add: finite_dict_nodes)
    show ?thesis
    proof (cases "children_of stc sid = []")
      case True
      with False card_eq show ?thesis by simp
    next
      case nonempty: False
      let ?f = "\<lambda>child. calculate_depth budget stc child (insert sid visited)"
      have child: "\<exists>dc. ?f child = Inr dc \<and> dc \<le> card (dict_nodes stc - insert sid visited)"
        if "child \<in> set (children_of stc sid)" for child
      proof -
        from that have "child \<in> dict_nodes stc" using children_of_nodes by blast
        then have eq: "insert child (dict_nodes stc) = dict_nodes stc" by auto
        from Suc.prems card_eq have "card (dict_nodes stc - insert sid visited) < budget"
          by simp
        with Suc.IH [of child "insert sid visited"] show ?thesis by (auto simp: eq)
      qed
      then obtain ds where ds: "map_err ?f (children_of stc sid) = Inr ds"
        using map_err_returns [of "children_of stc sid" ?f] by blast
      then have all: "list_all2 (\<lambda>c dc. ?f c = Inr dc) (children_of stc sid) ds"
        by (simp add: map_err_Inr_iff)
      then have "length ds = length (children_of stc sid)"
        by (simp add: list_all2_lengthD)
      with nonempty have ne: "ds \<noteq> []" by auto
      have "dc \<le> card (dict_nodes stc - insert sid visited)" if "dc \<in> set ds" for dc
      proof -
        from list_all2_set2 [OF all that] obtain c where
          "c \<in> set (children_of stc sid)" and "?f c = Inr dc"
          by blast
        with child [of c] show ?thesis by auto
      qed
      then have "Max (set ds) \<le> card (dict_nodes stc - insert sid visited)"
        using ne by (subst Max_le_iff) auto
      with False nonempty ds card_eq show ?thesis
        by (simp add: bind_err_def)
    qed
  qed
qed

lemma calculate_depth_is_depth_rel:
  assumes "acyclic (edge_rel stc)"
  shows "calculate_depth budget stc sid visited = Inr d
     \<Longrightarrow> (\<forall>v\<in>visited. (v, sid) \<notin> (edge_rel stc)\<^sup>*)
     \<Longrightarrow> depth_rel stc sid d"
proof (induction budget arbitrary: sid visited d)
  case 0
  then show ?case by simp
next
  case (Suc budget)
  from Suc.prems(2) have fresh: "sid \<notin> visited" by auto
  show ?case
  proof (cases "children_of stc sid = []")
    case True
    with fresh Suc.prems(1) depth_rel.leaf [OF True] show ?thesis by simp
  next
    case False
    from calculate_depth_nodeD [OF Suc.prems(1) fresh False] obtain ds where
      all: "list_all2 (\<lambda>child dc. calculate_depth budget stc child (insert sid visited) = Inr dc)
              (children_of stc sid) ds"
      and d: "d = 1 + Max (set ds)"
      by blast
    have step: "depth_rel stc child dc"
      if child: "child \<in> set (children_of stc sid)"
        and dc: "calculate_depth budget stc child (insert sid visited) = Inr dc"
      for child dc
    proof (rule Suc.IH [OF dc])
      from child have edge: "(child, sid) \<in> edge_rel stc" by (simp add: edge_rel_def)
      show "\<forall>v\<in>insert sid visited. (v, child) \<notin> (edge_rel stc)\<^sup>*"
      proof
        fix v
        assume v: "v \<in> insert sid visited"
        show "(v, child) \<notin> (edge_rel stc)\<^sup>*"
        proof
          assume reach: "(v, child) \<in> (edge_rel stc)\<^sup>*"
          from reach edge have vs: "(v, sid) \<in> (edge_rel stc)\<^sup>+"
            by (rule rtrancl_into_trancl1)
          show False
          proof (cases "v = sid")
            case True
            with vs assms show False by (auto simp: acyclic_def)
          next
            case False
            with v have "v \<in> visited" by simp
            with Suc.prems(2) vs show False by (auto dest: trancl_into_rtrancl)
          qed
        qed
      qed
    qed
    have "list_all2 (depth_rel stc) (children_of stc sid) ds"
      using all step
      by (auto simp: list_all2_conv_all_nth)
    from depth_rel.node [OF False this] d show ?thesis by simp
  qed
qed

lemma calculate_depth_child_le:
  assumes "calculate_depth budget stc sid visited = Inr d"
    and "sid \<notin> visited" and "child \<in> set (children_of stc sid)"
  shows "\<exists>dc. calculate_depth (budget - 1) stc child (insert sid visited) = Inr dc \<and> 1 + dc \<le> d"
proof -
  from assms(1) obtain b where b: "budget = Suc b" by (cases budget) auto
  from assms(3) have ne: "children_of stc sid \<noteq> []" by auto
  from calculate_depth_nodeD [OF assms(1) [unfolded b] assms(2) ne] obtain ds where
    all: "list_all2 (\<lambda>c dc. calculate_depth b stc c (insert sid visited) = Inr dc)
            (children_of stc sid) ds"
    and d: "d = 1 + Max (set ds)"
    by blast
  from assms(3) obtain i where i: "i < length (children_of stc sid)"
    and ci: "children_of stc sid ! i = child"
    by (auto simp: in_set_conv_nth)
  from all i ci have dc: "calculate_depth b stc child (insert sid visited) = Inr (ds ! i)"
    and len: "i < length ds"
    by (auto simp: list_all2_conv_all_nth)
  from len have "ds ! i \<le> Max (set ds)" by (intro Max_ge) simp_all
  with dc d b show ?thesis by simp
qed

lemma calculate_depth_pos:
  "calculate_depth budget stc sid visited = Inr d \<Longrightarrow> sid \<notin> visited \<Longrightarrow> 1 \<le> d"
proof (cases budget)
  case 0
  assume "calculate_depth budget stc sid visited = Inr d"
  with 0 show ?thesis by simp
next
  case (Suc b)
  assume res: "calculate_depth budget stc sid visited = Inr d" and fresh: "sid \<notin> visited"
  show ?thesis
  proof (cases "children_of stc sid = []")
    case True
    with res fresh Suc show ?thesis by simp
  next
    case False
    from calculate_depth_nodeD [OF res [unfolded Suc] fresh False] show ?thesis by auto
  qed
qed

section \<open>The loop over the roots\<close>

lemma dict_nodes_Nil: "dict_nodes [] = {}"
  by (simp add: dict_nodes_def)

lemma dict_nodes_Cons: "dict_nodes ((k, v) # d) = set v \<union> dict_nodes d"
  by (simp add: dict_nodes_def)

lemma dict_nodes_dict_append: "dict_nodes (dict_append d k x) = insert x (dict_nodes d)"
proof (induction d)
  case Nil
  then show ?case by (simp add: dict_nodes_Nil dict_nodes_Cons)
next
  case (Cons kv d)
  obtain k' v where kv: "kv = (k', v)" by (cases kv)
  show ?case
    unfolding kv using Cons.IH by (auto simp: dict_nodes_Cons)
qed

lemma dict_nodes_fold_append:
  "dict_nodes (fold (\<lambda>row d. if parent_span_id row \<noteq> [] then dict_append d (parent_span_id row) (span_id row) else d) df d0)
     \<subseteq> dict_nodes d0 \<union> span_id ` set df"
proof (induction df arbitrary: d0)
  case Nil
  then show ?case by simp
next
  case (Cons row df)
  show ?case
  proof (cases "parent_span_id row = []")
    case True
    with Cons.IH [of d0] show ?thesis by auto
  next
    case False
    with Cons.IH [of "dict_append d0 (parent_span_id row) (span_id row)"]
    show ?thesis by (auto simp: dict_nodes_dict_append)
  qed
qed

lemma dict_nodes_span_to_children: "dict_nodes (span_to_children df) \<subseteq> span_id ` set df"
  using dict_nodes_fold_append [of df "[]"]
  by (simp add: span_to_children_def build_index_def fst_fold_index_row dict_nodes_Nil)

lemma acc_max_Some: "acc_max (Some d) xs = Some (Max (set (d # xs)))"
proof (induction xs arbitrary: d)
  case Nil
  then show ?case by simp
next
  case (Cons x xs)
  have "Max (insert (max d x) (set xs)) = Max (insert d (insert x (set xs)))"
    by (cases "xs = []") (simp_all add: max.assoc)
  with Cons show ?case by simp
qed

lemma acc_max_None_map:
  "acc_max None (map f xs) = (if xs = [] then None else Some (Max (set (map f xs))))"
  by (cases xs) (simp_all add: acc_max_Some)

lemma root_walk_bound:
  assumes "q \<in> set df"
  shows "card (insert (span_id q) (dict_nodes (span_to_children df)) - {}) \<le> length df"
proof -
  have "insert (span_id q) (dict_nodes (span_to_children df)) \<subseteq> span_id ` set df"
    using assms dict_nodes_span_to_children by auto
  then have "card (insert (span_id q) (dict_nodes (span_to_children df)))
      \<le> card (span_id ` set df)"
    by (intro card_mono) simp_all
  also have "\<dots> \<le> card (set df)" by (intro card_image_le) simp
  also have "\<dots> \<le> length df" by (rule card_length)
  finally show ?thesis by simp
qed

lemma root_depth_returns:
  assumes "q \<in> set df" and "length df < budget"
  shows "\<exists>d. calculate_depth budget (span_to_children df) (span_id q) {} = Inr d
           \<and> 1 \<le> d \<and> d \<le> length df"
proof -
  from root_walk_bound [OF assms(1)] assms(2)
  have "card (insert (span_id q) (dict_nodes (span_to_children df)) - {}) < budget"
    by linarith
  from calculate_depth_enough [OF this] root_walk_bound [OF assms(1)]
  show ?thesis by fastforce
qed

lemma root_loop_result:
  assumes "dom (map_of td) = dom (map_of tb)"
    and "root_loop budget stc roots (td, tb) = Inr (td', tb')"
  shows "(\<forall>r\<in>set roots. \<exists>d. calculate_depth budget stc (span_id r) {} = Inr d)
     \<and> (\<forall>t. map_of td' t
            = acc_max (map_of td t)
                (map (\<lambda>r. projr (calculate_depth budget stc (span_id r) {}))
                   (filter (\<lambda>r. trace_id r = t) roots)))
     \<and> (\<forall>t. map_of tb' t
            = acc_max (map_of tb t)
                (map (\<lambda>r. length (children_of stc (span_id r)))
                   (filter (\<lambda>r. trace_id r = t) roots)))"
  using assms
proof (induction roots arbitrary: td tb)
  case Nil
  then show ?case by simp
next
  case (Cons r roots)
  let ?t = "trace_id r"
  let ?breadth = "length (children_of stc (span_id r))"
  from Cons.prems(2) obtain depth where
    depth: "calculate_depth budget stc (span_id r) {} = Inr depth"
    by (cases "calculate_depth budget stc (span_id r) {}") (simp_all add: Let_def)
  obtain td1 tb1 where
    td1: "td1 = dict_set td ?t (case map_of td ?t of None \<Rightarrow> depth | Some d0 \<Rightarrow> max d0 depth)"
    and tb1: "tb1 = dict_set tb ?t (case map_of tb ?t of None \<Rightarrow> ?breadth | Some b0 \<Rightarrow> max b0 ?breadth)"
    by blast
  have same: "map_of td ?t = None \<longleftrightarrow> map_of tb ?t = None"
    using Cons.prems(1) by (metis domIff)
  have step: "root_loop budget stc (r # roots) (td, tb) = root_loop budget stc roots (td1, tb1)"
  proof (cases "map_of td ?t")
    case None
    with same have "map_of tb ?t = None" by simp
    with None depth show ?thesis
      by (simp add: Let_def children_of_def td1 tb1)
  next
    case (Some d0)
    with same obtain b0 where "map_of tb ?t = Some b0" by auto
    with Some depth show ?thesis
      by (simp add: Let_def children_of_def dict_index_def td1 tb1)
  qed
  have doms: "dom (map_of td1) = dom (map_of tb1)"
    using Cons.prems(1) by (simp add: td1 tb1 map_of_dict_set)
  from Cons.prems(2) have res: "root_loop budget stc roots (td1, tb1) = Inr (td', tb')"
    by (simp only: step)
  note ih = Cons.IH [OF doms res]
  show ?case
  proof (intro conjI ballI allI)
    fix x
    assume "x \<in> set (r # roots)"
    with depth ih show "\<exists>d. calculate_depth budget stc (span_id x) {} = Inr d"
      by auto
  next
    fix t
    from ih have "map_of td' t = acc_max (map_of td1 t)
        (map (\<lambda>r. projr (calculate_depth budget stc (span_id r) {}))
           (filter (\<lambda>r. trace_id r = t) roots))"
      by blast
    then show "map_of td' t = acc_max (map_of td t)
        (map (\<lambda>r. projr (calculate_depth budget stc (span_id r) {}))
           (filter (\<lambda>r. trace_id r = t) (r # roots)))"
      by (cases "map_of td (trace_id r)") (simp_all add: td1 map_of_dict_set depth)
  next
    fix t
    from ih have "map_of tb' t = acc_max (map_of tb1 t)
        (map (\<lambda>r. length (children_of stc (span_id r)))
           (filter (\<lambda>r. trace_id r = t) roots))"
      by blast
    then show "map_of tb' t = acc_max (map_of tb t)
        (map (\<lambda>r. length (children_of stc (span_id r)))
           (filter (\<lambda>r. trace_id r = t) (r # roots)))"
      by (cases "map_of tb (trace_id r)") (simp_all add: tb1 map_of_dict_set)
  qed
qed

lemma root_loop_returns:
  assumes "dom (map_of td) = dom (map_of tb)"
    and "\<forall>r\<in>set roots. \<exists>d. calculate_depth budget stc (span_id r) {} = Inr d"
  shows "\<exists>res. root_loop budget stc roots (td, tb) = Inr res"
  using assms
proof (induction roots arbitrary: td tb)
  case Nil
  then show ?case by simp
next
  case (Cons r roots)
  let ?t = "trace_id r"
  from Cons.prems(2) obtain depth where
    depth: "calculate_depth budget stc (span_id r) {} = Inr depth"
    by auto
  have same: "map_of td ?t = None \<longleftrightarrow> map_of tb ?t = None"
    using Cons.prems(1) by (metis domIff)
  from Cons.prems(2) have rest: "\<forall>r\<in>set roots. \<exists>d. calculate_depth budget stc (span_id r) {} = Inr d"
    by simp
  show ?case
  proof (cases "map_of td ?t")
    case None
    with same have nb: "map_of tb ?t = None" by simp
    have "dom (map_of (dict_set td ?t depth))
        = dom (map_of (dict_set tb ?t (length (dict_get stc (span_id r) []))))"
      using Cons.prems(1) by (simp add: map_of_dict_set)
    from Cons.IH [OF this rest] None depth show ?thesis
      by (simp add: Let_def)
  next
    case (Some d0)
    with same obtain b0 where sb: "map_of tb ?t = Some b0" by auto
    have "dom (map_of (dict_set td ?t (max d0 depth)))
        = dom (map_of (dict_set tb ?t (max b0 (length (dict_get stc (span_id r) [])))))"
      using Cons.prems(1) by (simp add: map_of_dict_set)
    from Cons.IH [OF this rest] Some sb depth show ?thesis
      by (simp add: Let_def dict_index_def)
  qed
qed

lemma root_loop_error:
  assumes "dom (map_of td) = dom (map_of tb)"
    and "root_loop budget stc roots (td, tb) = Inl e"
  shows "e = RecursionError"
  using assms
proof (induction roots arbitrary: td tb)
  case Nil
  then show ?case by simp
next
  case (Cons r roots)
  let ?t = "trace_id r"
  show ?case
  proof (cases "calculate_depth budget stc (span_id r) {}")
    case (Inl e')
    with Cons.prems(2) have "e' = e" by (simp add: Let_def)
    with Inl show ?thesis by (auto dest: calculate_depth_error)
  next
    case (Inr depth)
    have same: "map_of td ?t = None \<longleftrightarrow> map_of tb ?t = None"
      using Cons.prems(1) by (metis domIff)
    show ?thesis
    proof (cases "map_of td ?t")
      case None
      with same have nb: "map_of tb ?t = None" by simp
      have doms: "dom (map_of (dict_set td ?t depth))
          = dom (map_of (dict_set tb ?t (length (dict_get stc (span_id r) []))))"
        using Cons.prems(1) by (simp add: map_of_dict_set)
      from Cons.prems(2) None Inr
      have "root_loop budget stc roots
          (dict_set td ?t depth, dict_set tb ?t (length (dict_get stc (span_id r) []))) = Inl e"
        by (simp add: Let_def)
      with doms show ?thesis by (rule Cons.IH)
    next
      case (Some d0)
      with same obtain b0 where sb: "map_of tb ?t = Some b0" by auto
      have doms: "dom (map_of (dict_set td ?t (max d0 depth)))
          = dom (map_of (dict_set tb ?t (max b0 (length (dict_get stc (span_id r) [])))))"
        using Cons.prems(1) by (simp add: map_of_dict_set)
      from Cons.prems(2) Some sb Inr
      have "root_loop budget stc roots
          (dict_set td ?t (max d0 depth),
           dict_set tb ?t (max b0 (length (dict_get stc (span_id r) [])))) = Inl e"
        by (simp add: Let_def dict_index_def)
      with doms show ?thesis by (rule Cons.IH)
    qed
  qed
qed

section \<open>The empty input\<close>

text \<open>
  C9. The claim: the full analysis completes without an error on every input, the empty
  sequence included. On the empty data frame \<^verbatim>\<open>analyze_span_relationships\<close> divides the
  number of root rows by \<^verbatim>\<open>total_spans = 0\<close> (line 51): the run ends there with
  \<^verbatim>\<open>ZeroDivisionError\<close> and no analysis reports.
\<close>

theorem run_analyses_empty_raises:
  "analyze_span_relationships [] = Inl ZeroDivisionError
   \<and> run_analyses budget sort_values [] = Inl ZeroDivisionError"
  by (simp add: run_analyses_def analyze_span_relationships_def py_truediv_def bind_err_def)

end
